theory Spec2Isabelle
  imports Complex_Main
begin

section \<open>Data model of \<open>lib/handler.js\<close>\<close>

text \<open>
  JavaScript numbers are modelled as exact rationals: every sum, difference, product,
  quotient by a non-zero number, \<open>Math.floor\<close>, \<open>Math.round\<close> and \<open>Math.ceil\<close> of the source
  is the exact one (\<open>Math.round x\<close> is \<open>\<lfloor>x + 1/2\<rfloor>\<close>, which is HOL's \<open>round\<close>). The values
  \<open>undefined\<close>, \<open>NaN\<close> and the infinities have no counterpart: a numeric field that is absent,
  or that the source would fill with one of them, is \<open>None\<close>. A quotient by zero is outside
  the model; the statements below keep divisors non-zero through their validity hypotheses.

  A phase is a JavaScript object whose shape is given by the fields that are present
  (\<open>'duration' in phase\<close>), so each of the five fields the handler reads is optional; every
  other attribute of the phase (name, scenario weights, ...) is kept in \<open>extras\<close>.
\<close>

record phase =
  arrivalCount :: "rat option"
  arrivalRate :: "rat option"
  rampTo :: "rat option"
  duration :: "rat option"
  pause :: "rat option"
  extras :: "(string \<times> string) list"

text \<open>The optional \<open>_split\<close> attribute: the five settings a user may override.\<close>

record split_settings =
  splitMaxScriptDurationInSeconds :: "rat option"
  splitMaxChunkDurationInSeconds :: "rat option"
  splitMaxScriptRequestsPerSecond :: "rat option"
  splitMaxChunkRequestsPerSecond :: "rat option"
  splitTimeBufferInMilliseconds :: "rat option"

text \<open>
  \<open>_split\<close> may hold an object or, wrongly, a truthy value of another type (a string, a
  number, \<open>true\<close>). A falsy \<open>_split\<close> behaves as an absent one and is \<open>None\<close>.
\<close>

datatype split_value = SplitObject split_settings | SplitNotAnObject

record script =
  phases :: "phase list"
  s_split :: "split_value option"
  s_genesis :: "rat option"
  s_start :: "rat option"
  s_trace :: bool

record settings =
  maxScriptDurationInSeconds :: rat
  maxScriptRequestsPerSecond :: rat
  maxChunkDurationInSeconds :: rat
  maxChunkRequestsPerSecond :: rat
  timeBufferInMilliseconds :: rat

definition MAX_SCRIPT_DURATION_IN_SECONDS :: rat where
  "MAX_SCRIPT_DURATION_IN_SECONDS = 86400"

definition MAX_SCRIPT_REQUESTS_PER_SECOND :: rat where
  "MAX_SCRIPT_REQUESTS_PER_SECOND = 5000"

definition MAX_CHUNK_DURATION_IN_SECONDS :: rat where
  "MAX_CHUNK_DURATION_IN_SECONDS = 240"

definition MAX_CHUNK_REQUESTS_PER_SECOND :: rat where
  "MAX_CHUNK_REQUESTS_PER_SECOND = 25"

definition TIME_BUFFER_IN_MILLISECONDS :: rat where
  "TIME_BUFFER_IN_MILLISECONDS = 15000"

text \<open>
  JavaScript truthiness of an optional number, as in \<open>if (script._split.maxChunkDurationInSeconds)\<close>
  or \<open>if (!script._genesis)\<close>: an absent field and the number zero are both falsy.
\<close>

definition truthy :: "rat option \<Rightarrow> bool" where
  "truthy v = (case v of None \<Rightarrow> False | Some x \<Rightarrow> x \<noteq> 0)"

text \<open>\<open>ret.field = script._split.field\<close> when that is truthy, the default otherwise.\<close>

definition override :: "rat \<Rightarrow> rat option \<Rightarrow> rat" where
  "override dflt v = (case v of None \<Rightarrow> dflt | Some x \<Rightarrow> if x \<noteq> 0 then x else dflt)"

definition getSettings :: "script \<Rightarrow> settings" where
  "getSettings s =
     (case s_split s of
        Some (SplitObject u) \<Rightarrow>
          \<lparr> maxScriptDurationInSeconds =
              override MAX_SCRIPT_DURATION_IN_SECONDS (splitMaxScriptDurationInSeconds u),
            maxScriptRequestsPerSecond =
              override MAX_SCRIPT_REQUESTS_PER_SECOND (splitMaxScriptRequestsPerSecond u),
            maxChunkDurationInSeconds =
              override MAX_CHUNK_DURATION_IN_SECONDS (splitMaxChunkDurationInSeconds u),
            maxChunkRequestsPerSecond =
              override MAX_CHUNK_REQUESTS_PER_SECOND (splitMaxChunkRequestsPerSecond u),
            timeBufferInMilliseconds =
              override TIME_BUFFER_IN_MILLISECONDS (splitTimeBufferInMilliseconds u) \<rparr>
      | _ \<Rightarrow>
          \<lparr> maxScriptDurationInSeconds = MAX_SCRIPT_DURATION_IN_SECONDS,
            maxScriptRequestsPerSecond = MAX_SCRIPT_REQUESTS_PER_SECOND,
            maxChunkDurationInSeconds = MAX_CHUNK_DURATION_IN_SECONDS,
            maxChunkRequestsPerSecond = MAX_CHUNK_REQUESTS_PER_SECOND,
            timeBufferInMilliseconds = TIME_BUFFER_IN_MILLISECONDS \<rparr>)"

section \<open>Phase geometry\<close>

definition phaseLength :: "phase \<Rightarrow> rat" where
  "phaseLength p =
     (case duration p of
        Some d \<Rightarrow> d
      | None \<Rightarrow> (case pause p of Some ps \<Rightarrow> ps | None \<Rightarrow> - 1))"

text \<open>
  The loop of \<open>scriptLength\<close>, from index \<open>i\<close> with the running total \<open>ret\<close>: a phase of
  negative length ends the loop with \<open>-1 * i\<close>.
\<close>

fun scriptLength_from :: "nat \<Rightarrow> rat \<Rightarrow> phase list \<Rightarrow> rat" where
  "scriptLength_from i ret [] = ret"
| "scriptLength_from i ret (p # ps) =
     (if phaseLength p < 0 then - 1 * of_nat i
      else scriptLength_from (Suc i) (ret + phaseLength p) ps)"

definition scriptLength :: "script \<Rightarrow> rat" where
  "scriptLength s = scriptLength_from 0 0 (phases s)"

definition phaseWidth :: "phase \<Rightarrow> rat" where
  "phaseWidth p =
     (case (rampTo p, arrivalRate p) of
        (Some r, Some a) \<Rightarrow> max a r
      | (None, Some a) \<Rightarrow> a
      | (_, None) \<Rightarrow>
          (case (arrivalCount p, duration p) of
             (Some n, Some d) \<Rightarrow> n / d
           | _ \<Rightarrow> (case pause p of Some ps \<Rightarrow> 0 | None \<Rightarrow> - 1)))"

fun scriptWidth_from :: "nat \<Rightarrow> rat \<Rightarrow> phase list \<Rightarrow> rat" where
  "scriptWidth_from i ret [] = ret"
| "scriptWidth_from i ret (p # ps) =
     (if phaseWidth p < 0 then - 1 * of_nat i
      else scriptWidth_from (Suc i) (max ret (phaseWidth p)) ps)"

definition scriptWidth :: "script \<Rightarrow> rat" where
  "scriptWidth s = scriptWidth_from 0 0 (phases s)"

section \<open>Splitting by length\<close>

text \<open>
  \<open>splitPhaseByLength\<close> returns a deep copy as the chunk and the input object itself, updated
  in place, as the remainder; the pair below is the chunk and the input after the call.
\<close>

definition splitPhaseByLength :: "phase \<Rightarrow> rat \<Rightarrow> phase \<times> phase" where
  "splitPhaseByLength p chunkSize =
     (case duration p of
        Some d \<Rightarrow>
          (case (rampTo p, arrivalRate p) of
             (Some r, Some a) \<Rightarrow>
               (let diff = r - a;
                    ratio = chunkSize / d;
                    chunkRampTo = of_int (round (a + diff * ratio))
                in (p\<lparr>rampTo := Some chunkRampTo, duration := Some chunkSize\<rparr>,
                    p\<lparr>arrivalRate := Some chunkRampTo, duration := Some (d - chunkSize)\<rparr>))
           | _ \<Rightarrow>
               (case arrivalCount p of
                  Some n \<Rightarrow>
                    (let ratio = chunkSize / d;
                         chunkCount = of_int (round (n * ratio))
                     in (p\<lparr>arrivalCount := Some chunkCount, duration := Some chunkSize\<rparr>,
                         p\<lparr>arrivalCount := Some (n - chunkCount),
                           duration := Some (d - chunkSize)\<rparr>))
                | None \<Rightarrow>
                    (p\<lparr>duration := Some chunkSize\<rparr>, p\<lparr>duration := Some (d - chunkSize)\<rparr>)))
      | None \<Rightarrow>
          (case pause p of
             Some ps \<Rightarrow> (p\<lparr>pause := Some chunkSize\<rparr>, p\<lparr>pause := Some (ps - chunkSize)\<rparr>)
           | None \<Rightarrow> (p, p)))"

text \<open>
  The \<open>while\<close> loop of \<open>splitScriptByLength\<close>: \<open>chunkPhases\<close> is \<open>ret.chunk.config.phases\<close>, the
  list argument is \<open>ret.remainder.config.phases\<close>. Splitting a phase sets
  \<open>remainingDuration\<close> to \<open>0\<close>, which ends the loop.
\<close>

fun splitByLengthLoop :: "rat \<Rightarrow> phase list \<Rightarrow> phase list \<Rightarrow> phase list \<times> phase list" where
  "splitByLengthLoop remainingDuration chunkPhases [] = (chunkPhases, [])"
| "splitByLengthLoop remainingDuration chunkPhases (p # ps) =
     (if remainingDuration > 0 then
        (if phaseLength p > remainingDuration then
           (let phaseParts = splitPhaseByLength p remainingDuration
            in (chunkPhases @ [fst phaseParts], snd phaseParts # ps))
         else splitByLengthLoop (remainingDuration - phaseLength p) (chunkPhases @ [p]) ps)
      else (chunkPhases, p # ps))"

text \<open>
  The chunk is a deep copy of the script taken before \<open>_start\<close> is deleted from the
  remainder, so it keeps the input's \<open>_start\<close>; the remainder is the input script itself and
  loses a truthy \<open>_start\<close>.
\<close>

definition splitScriptByLength :: "script \<Rightarrow> rat \<Rightarrow> script \<times> script" where
  "splitScriptByLength s chunkSize =
     (let parts = splitByLengthLoop chunkSize [] (phases s)
      in (s\<lparr>phases := fst parts\<rparr>,
          s\<lparr>phases := snd parts,
            s_start := (if truthy (s_start s) then None else s_start s)\<rparr>))"

section \<open>Splitting by width\<close>

text \<open>The only exception the splitting code raises: \<open>intersect\<close> on parallel lines.\<close>

datatype error = ParallelLines

text \<open>A point is \<open>(x, y)\<close>; a line \<open>Ax + By = C\<close> is \<open>(A, B, C)\<close>.\<close>

definition abc :: "rat \<times> rat \<Rightarrow> rat \<times> rat \<Rightarrow> rat \<times> rat \<times> rat" where
  "abc p1 p2 =
     (let A = snd p2 - snd p1;
          B = fst p1 - fst p2
      in (A, B, A * fst p1 + B * snd p1))"

definition intersect :: "rat \<times> rat \<times> rat \<Rightarrow> rat \<times> rat \<times> rat \<Rightarrow> error + rat \<times> rat" where
  "intersect l1 l2 =
     (case (l1, l2) of
        ((A1, B1, C1), (A2, B2, C2)) \<Rightarrow>
          (let det = (A1 * B2) - (A2 * B1)
           in if det = 0 then Inl ParallelLines
              else Inr (of_int (round (((B2 * C1) - (B1 * C2)) / det)),
                        of_int (round (((A1 * C2) - (A2 * C1)) / det)))))"

text \<open>
  \<open>intersection\<close> reads \<open>arrivalRate\<close>, \<open>duration\<close> and \<open>rampTo\<close> of the phase. With one of them
  absent every coefficient the source computes from it is \<open>NaN\<close>, the determinant is not
  \<open>=== 0\<close>, and both coordinates of the result are \<open>NaN\<close>: the result \<open>Inr None\<close>.
\<close>

definition intersection :: "phase \<Rightarrow> rat \<Rightarrow> error + (rat \<times> rat) option" where
  "intersection p chunkSize =
     (case (arrivalRate p, duration p, rampTo p) of
        (Some a, Some d, Some r) \<Rightarrow>
          (case intersect (abc (0, a) (d, r)) (abc (0, chunkSize) (d, chunkSize)) of
             Inl e \<Rightarrow> Inl e
           | Inr pt \<Rightarrow> Inr (Some pt))
      | _ \<Rightarrow> Inr None)"

text \<open>
  \<open>copyOverwritePush\<close>: the copy of the phase with the five fields overwritten, pushed on
  the array. An argument \<open>None\<close> is the source's \<open>null\<close>, which deletes the field (and, by the
  convention above, an \<open>undefined\<close> or \<open>NaN\<close> argument, which leaves no number in the field).
  The auxiliary attributes are those of the copied phase.
\<close>

definition copyOverwritePush ::
  "phase list \<Rightarrow> phase \<Rightarrow> rat option \<Rightarrow> rat option \<Rightarrow> rat option \<Rightarrow> rat option \<Rightarrow> rat option
     \<Rightarrow> phase list" where
  "copyOverwritePush arr p arrivalCount' arrivalRate' rampTo' duration' pause' =
     arr @ [p\<lparr>arrivalCount := arrivalCount', arrivalRate := arrivalRate', rampTo := rampTo',
              duration := duration', pause := pause'\<rparr>]"

definition addArrivalCount :: "phase list \<Rightarrow> phase \<Rightarrow> rat \<Rightarrow> rat option \<Rightarrow> phase list" where
  "addArrivalCount arr p arrivalCount' duration' =
     copyOverwritePush arr p (Some arrivalCount') None None duration' None"

definition addArrivalRate :: "phase list \<Rightarrow> phase \<Rightarrow> rat \<Rightarrow> rat option \<Rightarrow> phase list" where
  "addArrivalRate arr p arrivalRate' duration' =
     copyOverwritePush arr p None (Some arrivalRate') None duration' None"

definition addRamp :: "phase list \<Rightarrow> phase \<Rightarrow> rat \<Rightarrow> rat \<Rightarrow> rat option \<Rightarrow> phase list" where
  "addRamp arr p arrivalRate' rampTo' duration' =
     copyOverwritePush arr p None (Some (if arrivalRate' > 0 then arrivalRate' else 1))
       (Some rampTo') duration' None"

definition addPause :: "phase list \<Rightarrow> phase \<Rightarrow> rat option \<Rightarrow> phase list" where
  "addPause arr p pause' = copyOverwritePush arr p None None None None pause'"

text \<open>
  \<open>phase.duration - intersection.x\<close>: a number when both operands are numbers, \<open>NaN\<close>
  otherwise.
\<close>

definition minus_opt :: "rat option \<Rightarrow> rat option \<Rightarrow> rat option" where
  "minus_opt u v = (case (u, v) of (Some a, Some b) \<Rightarrow> Some (a - b) | _ \<Rightarrow> None)"

text \<open>
  \<open>splitPhaseByWidth\<close> first deletes \<open>rampTo\<close> from its argument when it equals
  \<open>arrivalRate\<close>: a change of the caller's object. The result, unless \<open>intersect\<close> throws, is
  the argument as the call leaves it, then \<open>ret.chunk\<close> and \<open>ret.remainder\<close>.
\<close>

definition dropFlatRamp :: "phase \<Rightarrow> phase" where
  "dropFlatRamp p =
     (case (rampTo p, arrivalRate p) of
        (Some r, Some a) \<Rightarrow> if r = a then p\<lparr>rampTo := None\<rparr> else p
      | _ \<Rightarrow> p)"

definition splitPhaseByWidth :: "phase \<Rightarrow> rat \<Rightarrow> error + phase \<times> phase list \<times> phase list" where
  "splitPhaseByWidth p0 chunkSize =
     (let p = dropFlatRamp p0 in
      case (rampTo p, arrivalRate p) of
        (Some r, Some a) \<Rightarrow>
          if max a r \<le> chunkSize then
            Inr (p, addRamp [] p a r (duration p), addPause [] p (duration p))
          else if min a r \<ge> chunkSize then
            Inr (p, addArrivalRate [] p chunkSize (duration p),
                    addRamp [] p (a - chunkSize) (r - chunkSize) (duration p))
          else
            (case intersection p chunkSize of
               Inl e \<Rightarrow> Inl e
             | Inr pt \<Rightarrow>
                 (let x = map_option fst pt;
                      rest = minus_opt (duration p) x
                  in if a < r then
                       Inr (p, addArrivalRate (addRamp [] p a chunkSize x) p chunkSize rest,
                               addRamp (addPause [] p x) p 1 (r - chunkSize) rest)
                     else
                       Inr (p, addRamp (addArrivalRate [] p chunkSize x) p chunkSize r rest,
                               addPause (addRamp [] p (a - chunkSize) 1 x) p rest)))
      | (None, Some a) \<Rightarrow>
          if a > chunkSize then
            Inr (p, addArrivalRate [] p chunkSize (duration p),
                    addArrivalRate [] p (a - chunkSize) (duration p))
          else
            Inr (p, addArrivalRate [] p a (duration p), addPause [] p (duration p))
      | (_, None) \<Rightarrow>
          (case (arrivalCount p, duration p) of
             (Some n, Some d) \<Rightarrow>
               (let rps = n / d in
                if rps \<ge> chunkSize then
                  (let arrivalCount' = of_int \<lfloor>chunkSize * d\<rfloor>
                   in Inr (p, addArrivalCount [] p arrivalCount' (Some d),
                              addArrivalCount [] p (n - arrivalCount') (Some d)))
                else
                  Inr (p, addArrivalCount [] p n (Some d), addPause [] p (Some d)))
           | _ \<Rightarrow>
               (case pause p of
                  Some ps \<Rightarrow> Inr (p, addPause [] p (Some ps), addPause [] p (Some ps))
                | None \<Rightarrow> Inr (p, [], []))))"

text \<open>
  The \<open>for\<close> loop of \<open>splitScriptByWidth\<close> over \<open>script.config.phases\<close>: \<open>seen\<close> are the phases
  of the input already visited, as the calls left them; \<open>chunkPhases\<close> and \<open>remainderPhases\<close>
  are the two arrays being filled. An exception of \<open>intersect\<close> ends the loop.
\<close>

fun splitByWidthLoop ::
  "rat \<Rightarrow> phase list \<Rightarrow> phase list \<Rightarrow> phase list \<Rightarrow> phase list
     \<Rightarrow> error + phase list \<times> phase list \<times> phase list" where
  "splitByWidthLoop chunkSize seen chunkPhases remainderPhases [] =
     Inr (seen, chunkPhases, remainderPhases)"
| "splitByWidthLoop chunkSize seen chunkPhases remainderPhases (p # ps) =
     (case splitPhaseByWidth p chunkSize of
        Inl e \<Rightarrow> Inl e
      | Inr (p', ch, rm) \<Rightarrow>
          splitByWidthLoop chunkSize (seen @ [p']) (chunkPhases @ ch) (remainderPhases @ rm) ps)"

text \<open>
  The result of \<open>splitScriptByWidth\<close>: the input script as the call leaves it, the chunk and
  the remainder (both deep copies of the input taken before the loop).
\<close>

definition splitScriptByWidth :: "script \<Rightarrow> rat \<Rightarrow> error + script \<times> script \<times> script" where
  "splitScriptByWidth s chunkSize =
     (case splitByWidthLoop chunkSize [] [] [] (phases s) of
        Inl e \<Rightarrow> Inl e
      | Inr (seen, chunkPhases, remainderPhases) \<Rightarrow>
          Inr (s\<lparr>phases := seen\<rparr>, s\<lparr>phases := chunkPhases\<rparr>, s\<lparr>phases := remainderPhases\<rparr>))"

section \<open>Example values\<close>

text \<open>
  The four phase shapes of the data model, with no auxiliary attributes, and a script that
  carries only phases. They serve to write concrete inputs.
\<close>

definition constantPhase :: "rat \<Rightarrow> rat \<Rightarrow> phase" where
  "constantPhase a d =
     \<lparr> arrivalCount = None, arrivalRate = Some a, rampTo = None, duration = Some d,
       pause = None, extras = [] \<rparr>"

definition rampPhase :: "rat \<Rightarrow> rat \<Rightarrow> rat \<Rightarrow> phase" where
  "rampPhase a r d =
     \<lparr> arrivalCount = None, arrivalRate = Some a, rampTo = Some r, duration = Some d,
       pause = None, extras = [] \<rparr>"

definition countPhase :: "rat \<Rightarrow> rat \<Rightarrow> phase" where
  "countPhase n d =
     \<lparr> arrivalCount = Some n, arrivalRate = None, rampTo = None, duration = Some d,
       pause = None, extras = [] \<rparr>"

definition pausePhase :: "rat \<Rightarrow> phase" where
  "pausePhase d =
     \<lparr> arrivalCount = None, arrivalRate = None, rampTo = None, duration = None,
       pause = Some d, extras = [] \<rparr>"

definition plainScript :: "phase list \<Rightarrow> script" where
  "plainScript ps =
     \<lparr> phases = ps, s_split = None, s_genesis = None, s_start = None, s_trace = False \<rparr>"

section \<open>Length splitting: preservation of the total duration\<close>

lemma splitPhaseByLength_lengths:
  assumes "k < phaseLength p" "0 \<le> k"
  shows "phaseLength (fst (splitPhaseByLength p k)) = k"
    and "phaseLength (snd (splitPhaseByLength p k)) = phaseLength p - k"
  using assms
  by (auto simp: splitPhaseByLength_def phaseLength_def Let_def split: option.splits)

lemma scriptLength_from_sum:
  "\<forall>p \<in> set ps. 0 \<le> phaseLength p \<Longrightarrow>
   scriptLength_from i ret ps = ret + sum_list (map phaseLength ps)"
  by (induction ps arbitrary: i ret) auto



lemma splitByLengthLoop_sums:
  assumes "\<forall>p \<in> set ps. 0 \<le> phaseLength p" "0 \<le> rd" "rd \<le> sum_list (map phaseLength ps)"
  shows "sum_list (map phaseLength (fst (splitByLengthLoop rd ch ps)))
           = sum_list (map phaseLength ch) + rd
       \<and> sum_list (map phaseLength (snd (splitByLengthLoop rd ch ps)))
           = sum_list (map phaseLength ps) - rd"
  using assms
proof (induction ps arbitrary: rd ch)
  case Nil
  then show ?case by simp
next
  case (Cons p ps)
  show ?case
  proof (cases "0 < rd")
    case False
    with Cons.prems show ?thesis by simp
  next
    case pos: True
    show ?thesis
    proof (cases "rd < phaseLength p")
      case True
      with pos Cons.prems splitPhaseByLength_lengths[of rd p] show ?thesis
        by (simp add: Let_def)
    next
      case False
      with pos Cons.prems Cons.IH[of "rd - phaseLength p" "ch @ [p]"] show ?thesis
        by simp
    qed
  qed
qed

lemma splitByLengthLoop_nonneg:
  assumes "\<forall>p \<in> set ps. 0 \<le> phaseLength p" "\<forall>p \<in> set ch. 0 \<le> phaseLength p"
  shows "(\<forall>p \<in> set (fst (splitByLengthLoop rd ch ps)). 0 \<le> phaseLength p)
       \<and> (\<forall>p \<in> set (snd (splitByLengthLoop rd ch ps)). 0 \<le> phaseLength p)"
  using assms
proof (induction ps arbitrary: rd ch)
  case Nil
  then show ?case by simp
next
  case (Cons p ps)
  show ?case
  proof (cases "0 < rd")
    case False
    with Cons.prems show ?thesis by simp
  next
    case pos: True
    show ?thesis
    proof (cases "rd < phaseLength p")
      case True
      with pos Cons.prems splitPhaseByLength_lengths[of rd p] show ?thesis
        by (simp add: Let_def)
    next
      case False
      have a: "\<forall>q \<in> set ps. 0 \<le> phaseLength q" using Cons.prems(1) by simp
      have b: "\<forall>q \<in> set (ch @ [p]). 0 \<le> phaseLength q" using Cons.prems by simp
      have eq: "splitByLengthLoop rd ch (p # ps)
                  = splitByLengthLoop (rd - phaseLength p) (ch @ [p]) ps"
        using pos False by simp
      show ?thesis unfolding eq by (rule Cons.IH[OF a b])
    qed
  qed
qed

lemma scriptLength_sum:
  "\<forall>p \<in> set (phases S). 0 \<le> phaseLength p \<Longrightarrow>
   scriptLength S = sum_list (map phaseLength (phases S))"
  by (simp add: scriptLength_def scriptLength_from_sum)

lemma splitScriptByLength_totals:
  assumes valid: "\<forall>p \<in> set (phases S). 0 \<le> phaseLength p"
    and k: "0 \<le> k" "k \<le> scriptLength S"
  shows "scriptLength (fst (splitScriptByLength S k)) = k"
    and "scriptLength (snd (splitScriptByLength S k)) = scriptLength S - k"
proof -
  let ?parts = "splitByLengthLoop k [] (phases S)"
  have total: "scriptLength S = sum_list (map phaseLength (phases S))"
    by (rule scriptLength_sum[OF valid])
  have sums: "sum_list (map phaseLength (fst ?parts)) = k"
             "sum_list (map phaseLength (snd ?parts)) = sum_list (map phaseLength (phases S)) - k"
    using splitByLengthLoop_sums[OF valid k(1), of "[]"] k(2) total by simp_all
  have nn: "\<forall>p \<in> set (fst ?parts). 0 \<le> phaseLength p"
           "\<forall>p \<in> set (snd ?parts). 0 \<le> phaseLength p"
    using splitByLengthLoop_nonneg[OF valid, of "[]" k] by simp_all
  show "scriptLength (fst (splitScriptByLength S k)) = k"
    using sums(1) nn(1) by (simp add: splitScriptByLength_def Let_def scriptLength_sum)
  show "scriptLength (snd (splitScriptByLength S k)) = scriptLength S - k"
    using sums(2) nn(2) total by (simp add: splitScriptByLength_def Let_def scriptLength_sum)
qed



section \<open>Length splitting: when a phase is moved whole\<close>




section \<open>Width splitting of valid phases\<close>

text \<open>
  The invariants of the data model (specification, section 3): a phase has exactly the
  fields of one of the four shapes, with \<open>duration > 0\<close>, \<open>pause > 0\<close>, \<open>arrivalRate \<ge> 0\<close>,
  \<open>rampTo \<ge> 0\<close> and \<open>arrivalCount \<ge> 0\<close>.
\<close>

definition validPhase :: "phase \<Rightarrow> bool" where
  "validPhase p =
     (case (arrivalCount p, arrivalRate p, rampTo p, duration p, pause p) of
        (None, Some a, None, Some d, None) \<Rightarrow> 0 \<le> a \<and> 0 < d
      | (None, Some a, Some r, Some d, None) \<Rightarrow> 0 \<le> a \<and> 0 \<le> r \<and> 0 < d
      | (Some n, None, None, Some d, None) \<Rightarrow> 0 \<le> n \<and> 0 < d
      | (None, None, None, None, Some ps) \<Rightarrow> 0 < ps
      | _ \<Rightarrow> False)"

text \<open>The two arrays \<open>splitPhaseByWidth\<close> returns (empty where it throws).\<close>

definition chunkOf :: "phase \<Rightarrow> rat \<Rightarrow> phase list" where
  "chunkOf p c = (case splitPhaseByWidth p c of Inr (p', ch, rm) \<Rightarrow> ch | Inl e \<Rightarrow> [])"

definition remainderOf :: "phase \<Rightarrow> rat \<Rightarrow> phase list" where
  "remainderOf p c = (case splitPhaseByWidth p c of Inr (p', ch, rm) \<Rightarrow> rm | Inl e \<Rightarrow> [])"


lemmas splitPhaseByWidth_defs = splitPhaseByWidth_def dropFlatRamp_def addRamp_def addPause_def
  addArrivalRate_def addArrivalCount_def copyOverwritePush_def intersection_def intersect_def
  abc_def minus_opt_def Let_def

lemmas example_defs = constantPhase_def rampPhase_def countPhase_def pausePhase_def plainScript_def

lemma validPhase_cases:
  assumes "validPhase p"
  obtains
    (ConstantRate) a d where "arrivalCount p = None" "arrivalRate p = Some a" "rampTo p = None"
      "duration p = Some d" "pause p = None" "0 \<le> a" "0 < d"
  | (Ramp) a r d where "arrivalCount p = None" "arrivalRate p = Some a" "rampTo p = Some r"
      "duration p = Some d" "pause p = None" "0 \<le> a" "0 \<le> r" "0 < d"
  | (Count) n d where "arrivalCount p = Some n" "arrivalRate p = None" "rampTo p = None"
      "duration p = Some d" "pause p = None" "0 \<le> n" "0 < d"
  | (Pause) ps where "arrivalCount p = None" "arrivalRate p = None" "rampTo p = None"
      "duration p = None" "pause p = Some ps" "0 < ps"
  using assms unfolding validPhase_def
  by (auto split: option.splits)





lemma scriptWidth_from_le:
  "\<forall>q \<in> set ps. 0 \<le> phaseWidth q \<and> phaseWidth q \<le> c \<Longrightarrow> ret \<le> c \<Longrightarrow>
   scriptWidth_from i ret ps \<le> c"
  by (induction ps arbitrary: i ret) auto

lemma scriptWidth_from_ge:
  "\<forall>q \<in> set ps. 0 \<le> phaseWidth q \<Longrightarrow>
   ret \<le> scriptWidth_from i ret ps \<and> (\<forall>q \<in> set ps. phaseWidth q \<le> scriptWidth_from i ret ps)"
proof (induction ps arbitrary: i ret)
  case Nil
  then show ?case by simp
next
  case (Cons p ps)
  have rest: "\<forall>q \<in> set ps. 0 \<le> phaseWidth q" and p0: "0 \<le> phaseWidth p"
    using Cons.prems by simp_all
  from Cons.IH[OF rest, of "max ret (phaseWidth p)" "Suc i"] p0
  show ?case by auto
qed






lemma splitPhaseByWidth_input:
  "splitPhaseByWidth p c = Inr (p', ch, rm) \<Longrightarrow> p' = dropFlatRamp p"
  by (auto simp: splitPhaseByWidth_def Let_def split: option.splits if_splits sum.splits)

lemma splitByWidthLoop_seen:
  "splitByWidthLoop c seen ch rm ps = Inr (seen', ch', rm') \<Longrightarrow>
   seen' = seen @ map dropFlatRamp ps"
proof (induction ps arbitrary: seen ch rm)
  case Nil
  then show ?case by simp
next
  case (Cons p ps)
  from Cons.prems obtain p' c1 r1 where
    one: "splitPhaseByWidth p c = Inr (p', c1, r1)" and
    rest: "splitByWidthLoop c (seen @ [p']) (ch @ c1) (rm @ r1) ps = Inr (seen', ch', rm')"
    by (auto split: sum.splits)
  from Cons.IH[OF rest] splitPhaseByWidth_input[OF one] show ?case by simp
qed

section \<open>Width bound of the chunk\<close>




section \<open>Width splitting of a script that already fits\<close>




section \<open>The input phase after a width split\<close>

text \<open>
  C10. A phase that has \<open>rampTo\<close> and \<open>arrivalRate\<close> with equal values loses \<open>rampTo\<close> in the
  call of \<open>splitPhaseByWidth\<close>: the argument as the call leaves it differs from the argument
  passed, although no emitted sub-phase has \<open>rampTo\<close>. Through \<open>splitScriptByWidth\<close> the
  caller's script is changed at that index.
\<close>

theorem splitPhaseByWidth_mutates_input:
  assumes "rampTo p = Some v" and "arrivalRate p = Some v"
  shows "(\<exists>ch rm. splitPhaseByWidth p c = Inr (p\<lparr>rampTo := None\<rparr>, ch, rm)
            \<and> (\<forall>q \<in> set (ch @ rm). rampTo q = None))
       \<and> p\<lparr>rampTo := None\<rparr> \<noteq> p
       \<and> (\<forall>S S' chunk remainder i. splitScriptByWidth S c = Inr (S', chunk, remainder)
             \<and> i < length (phases S) \<and> phases S ! i = p
             \<longrightarrow> phases S' ! i = p\<lparr>rampTo := None\<rparr> \<and> S' \<noteq> S)"
proof -
  have d: "dropFlatRamp p = p\<lparr>rampTo := None\<rparr>"
    using assms by (simp add: dropFlatRamp_def)
  have ne: "p\<lparr>rampTo := None\<rparr> \<noteq> p"
  proof
    assume "p\<lparr>rampTo := None\<rparr> = p"
    then have "rampTo (p\<lparr>rampTo := None\<rparr>) = rampTo p" by simp
    with assms(1) show False by simp
  qed
  have one: "\<exists>ch rm. splitPhaseByWidth p c = Inr (p\<lparr>rampTo := None\<rparr>, ch, rm)
            \<and> (\<forall>q \<in> set (ch @ rm). rampTo q = None)"
    using assms by (auto simp: splitPhaseByWidth_defs)
  have scr: "phases S' ! i = p\<lparr>rampTo := None\<rparr> \<and> S' \<noteq> S"
    if h: "splitScriptByWidth S c = Inr (S', chunk, remainder)" "i < length (phases S)"
      "phases S ! i = p" for S S' chunk remainder i
  proof -
    from h(1) have "phases S' = map dropFlatRamp (phases S)"
      by (auto simp: splitScriptByWidth_def split: sum.splits dest: splitByWidthLoop_seen)
    with h(2,3) d have at: "phases S' ! i = p\<lparr>rampTo := None\<rparr>" by simp
    with h(3) ne have "phases S' \<noteq> phases S" by auto
    with at show ?thesis by auto
  qed
  show ?thesis using one ne scr by blast
qed

theorem splitPhaseByWidth_mutates_input_witness:
  "(\<exists>ch rm. splitPhaseByWidth (rampPhase 10 10 60) 25
              = Inr ((rampPhase 10 10 60)\<lparr>rampTo := None\<rparr>, ch, rm)
            \<and> (\<forall>q \<in> set (ch @ rm). rampTo q = None))
   \<and> (rampPhase 10 10 60)\<lparr>rampTo := None\<rparr> \<noteq> rampPhase 10 10 60"
proof -
  have h1: "rampTo (rampPhase 10 10 60) = Some 10" by (simp add: rampPhase_def)
  have h2: "arrivalRate (rampPhase 10 10 60) = Some 10" by (simp add: rampPhase_def)
  from splitPhaseByWidth_mutates_input[OF h1 h2, of 25] show ?thesis by blast
qed

section \<open>Width splitting and the arrival-rate curve\<close>




lemma floor_numeral_quotient:
  "\<lfloor>(numeral u :: rat) / numeral v\<rfloor> = numeral u div numeral v"
  using floor_divide_of_int_eq[of "numeral u" "numeral v", where ?'a = rat] by simp

lemma intersection_ramp:
  assumes "arrivalRate p = Some a" "rampTo p = Some r" "duration p = Some d" "r \<noteq> a" "d \<noteq> 0"
  shows "\<exists>y. intersection p c = Inr (Some (of_int (round (d * (c - a) / (r - a))), y))"
proof -
  have eq: "((0 - d) * ((r - a) * 0 + (0 - d) * a) - (0 - d) * ((c - c) * 0 + (0 - d) * c))
              / ((r - a) * (0 - d) - (c - c) * (0 - d))
            = d * (c - a) / (r - a)"
    using assms(4,5) by (simp add: field_simps)
  have det: "(r - a) * (0 - d) - (c - c) * (0 - d) \<noteq> 0"
    using assms(4,5) by simp
  show ?thesis
    using assms(1-3) det eq
    by (simp add: intersection_def intersect_def abc_def Let_def)
qed



lemma crossing_time_up:
  fixes a c r d :: rat
  assumes "a < c" "c < r" "0 < d"
  shows "0 < d * (c - a) / (r - a)" and "d * (c - a) / (r - a) < d"
proof -
  have ra: "0 < r - a" using assms by simp
  show "0 < d * (c - a) / (r - a)" using assms ra by simp
  have "d * (c - a) < d * (r - a)" using assms by simp
  then show "d * (c - a) / (r - a) < d" using ra by (simp add: pos_divide_less_eq mult.commute)
qed

lemma crossing_time_down:
  fixes a c r d :: rat
  assumes "r < c" "c < a" "0 < d"
  shows "0 < d * (c - a) / (r - a)" and "d * (c - a) / (r - a) < d"
proof -
  have eq: "d * (c - a) / (r - a) = d * (a - c) / (a - r)"
    using assms by (simp add: field_simps)
  have ar: "0 < a - r" using assms by simp
  show "0 < d * (c - a) / (r - a)" unfolding eq using assms ar by simp
  have "d * (a - c) < d * (a - r)" using assms by simp
  then show "d * (c - a) / (r - a) < d" unfolding eq using ar
    by (simp add: pos_divide_less_eq mult.commute)
qed













section \<open>The validator\<close>

text \<open>
  What \<open>validScript\<close> passes to the callback: one value for each message of the source. The
  two messages that end in \<open>Observed: ...\<close> carry the phase \<open>script.config.phases[-result]\<close>
  they print (\<open>None\<close> where that index holds no phase); the two limit messages carry the
  limit.
\<close>

datatype validationError =
    SplitNotObject
  | BadMaxChunkDuration
  | BadMaxScriptDuration
  | BadMaxScriptRequestsPerSecond
  | NoPhases
  | InvalidDuration "phase option"
  | TooLong rat
  | InvalidWidth "phase option"
  | TooWide rat

text \<open>\<open>Number.isInteger\<close> on a number.\<close>

definition isInteger :: "rat \<Rightarrow> bool" where
  "isInteger x = (of_int \<lfloor>x\<rfloor> = x)"

text \<open>\<open>script.config.phases[x]\<close>: the phase at index \<open>x\<close>, or \<open>undefined\<close>.\<close>

definition observed :: "phase list \<Rightarrow> rat \<Rightarrow> phase option" where
  "observed ps x = (if isInteger x \<and> 0 \<le> x \<and> nat \<lfloor>x\<rfloor> < length ps then Some (ps ! nat \<lfloor>x\<rfloor>) else None)"

text \<open>
  \<open>validScript\<close> returns \<open>ret\<close> and, when it rejects, has called the callback once: the result
  is \<open>ret\<close> and the message passed to the callback, if any. A script whose \<open>config.phases\<close> is
  missing or is not an array is rejected like one with no phase; such a script has no
  counterpart here other than the empty list.
\<close>

definition validScript :: "script \<Rightarrow> bool \<times> validationError option" where
  "validScript s =
     (let settings = getSettings s;
          message =
            (if s_split s = Some SplitNotAnObject then Some SplitNotObject
             else if maxChunkDurationInSeconds settings \<noteq> 0
                     \<and> \<not> (isInteger (maxChunkDurationInSeconds settings)
                            \<and> maxChunkDurationInSeconds settings > 0
                            \<and> maxChunkDurationInSeconds settings \<le> MAX_CHUNK_DURATION_IN_SECONDS)
               then Some BadMaxChunkDuration
             else if maxScriptDurationInSeconds settings \<noteq> 0
                     \<and> \<not> (isInteger (maxScriptDurationInSeconds settings)
                            \<and> maxScriptDurationInSeconds settings > 0
                            \<and> maxScriptDurationInSeconds settings \<le> MAX_SCRIPT_DURATION_IN_SECONDS)
               then Some BadMaxScriptDuration
             else if maxScriptRequestsPerSecond settings \<noteq> 0
                     \<and> \<not> (isInteger (maxScriptRequestsPerSecond settings)
                            \<and> maxScriptRequestsPerSecond settings > 0
                            \<and> maxScriptRequestsPerSecond settings \<le> MAX_SCRIPT_REQUESTS_PER_SECOND)
               then Some BadMaxScriptRequestsPerSecond
             else if \<not> length (phases s) > 0 then Some NoPhases
             else
               (let scriptLength' = scriptLength s;
                    scriptWidth' = scriptWidth s
                in if scriptLength' < 0
                     then Some (InvalidDuration (observed (phases s) (scriptLength' * - 1)))
                   else if scriptLength' > maxScriptDurationInSeconds settings
                     then Some (TooLong (maxScriptDurationInSeconds settings))
                   else if scriptWidth' < 0
                     then Some (InvalidWidth (observed (phases s) (scriptWidth' * - 1)))
                   else if scriptWidth' > maxScriptRequestsPerSecond settings
                     then Some (TooWide (maxScriptRequestsPerSecond settings))
                   else None))
      in (message = None, message))"

section \<open>The orchestrator\<close>

text \<open>
  What \<open>run\<close> does to the outside, in program order: the callback called by the validator,
  \<open>toComplete\<close> set for a split, a call of \<open>invokeSelf\<close> with its event (which calls back
  \<open>complete\<close> once, when the invocation has been submitted), a call of \<open>runLoad\<close> with its
  script, an exception leaving \<open>run\<close>. The delays passed to \<open>invokeSelf\<close> and \<open>setTimeout\<close> are
  not recorded: an effect says what is dispatched, not when.
\<close>

datatype effect =
    Rejected validationError
  | Counter int
  | InvokeSelf script
  | RunLoad script
  | Thrown error

text \<open>
  The \<open>do ... while (scriptWidth > 0)\<close> loop of the width branch. It need not end: the result
  \<open>None\<close> is a loop that runs forever. An exception of \<open>intersect\<close> ends it after the chunks
  already sent.
\<close>

partial_function (option) widthLoop :: "script \<Rightarrow> rat \<Rightarrow> effect list option" where
  "widthLoop s c =
     (case splitScriptByWidth s c of
        Inl e \<Rightarrow> Some [Thrown e]
      | Inr (s', chunk, remainder) \<Rightarrow>
          if scriptWidth remainder > 0
          then Option.bind (widthLoop remainder c) (\<lambda>rest. Some (InvokeSelf chunk # rest))
          else Some [InvokeSelf chunk])"

declare widthLoop.simps [code]

text \<open>Whether the effects end with an exception.\<close>

definition threw :: "effect list \<Rightarrow> bool" where
  "threw tr = (case rev tr of Thrown e # rest \<Rightarrow> True | _ \<Rightarrow> False)"

text \<open>\<open>if (!script._genesis) script._genesis = timeNow\<close>, and the same for \<open>_start\<close>.\<close>

definition assignGenesis :: "rat \<Rightarrow> script \<Rightarrow> script" where
  "assignGenesis timeNow s =
     (if \<not> truthy (s_genesis s) then s\<lparr>s_genesis := Some timeNow\<rparr> else s)"

definition assignStart :: "rat \<Rightarrow> script \<Rightarrow> script" where
  "assignStart t s = (if \<not> truthy (s_start s) then s\<lparr>s_start := Some t\<rparr> else s)"

text \<open>
  Lines 625 to 629 of \<open>run\<close>: the script is split by length at \<open>maxChunkDurationInSeconds\<close>,
  the chunk gets \<open>_start = timeNow + timeBufferInMilliseconds\<close> unless it has a truthy one, and
  the remainder gets the chunk's \<open>_start\<close> plus the chunk duration in milliseconds.
\<close>

definition lengthBranchParts :: "rat \<Rightarrow> script \<Rightarrow> script \<times> script" where
  "lengthBranchParts timeNow s =
     (let settings = getSettings s;
          parts = splitScriptByLength s (maxChunkDurationInSeconds settings);
          chunk = assignStart (timeNow + timeBufferInMilliseconds settings) (fst parts);
          remainder = (snd parts)\<lparr>s_start :=
            map_option (\<lambda>v. v + maxChunkDurationInSeconds settings * 1000) (s_start chunk)\<rparr>
      in (chunk, remainder))"

lemma scriptLength_from_pos:
  "0 < scriptLength_from i ret ps \<Longrightarrow> \<forall>p \<in> set ps. 0 \<le> phaseLength p"
proof (induction ps arbitrary: i ret)
  case Nil
  then show ?case by simp
next
  case (Cons p ps)
  show ?case
  proof (cases "phaseLength p < 0")
    case True
    with Cons.prems show ?thesis by simp
  next
    case False
    with Cons.prems have "0 < scriptLength_from (Suc i) (ret + phaseLength p) ps" by simp
    from Cons.IH[OF this] False show ?thesis by simp
  qed
qed

lemma validScript_maxChunk:
  assumes "snd (validScript s) = None"
  shows "0 < maxChunkDurationInSeconds (getSettings s)"
proof -
  have nz: "maxChunkDurationInSeconds (getSettings s) \<noteq> 0"
    by (auto simp: getSettings_def override_def MAX_CHUNK_DURATION_IN_SECONDS_def
        split: option.splits split_value.splits)
  from assms nz show ?thesis
    by (auto simp: validScript_def Let_def split: if_splits)
qed

lemma getSettings_cong: "s_split s' = s_split s \<Longrightarrow> getSettings s' = getSettings s"
  by (simp add: getSettings_def)

lemma lengthBranch_chunk_length:
  assumes ok: "snd (validScript s) = None"
    and long: "maxChunkDurationInSeconds (getSettings s) < scriptLength s"
  shows "scriptLength (fst (lengthBranchParts t (assignGenesis t s)))
           = maxChunkDurationInSeconds (getSettings s)"
    and "getSettings (fst (lengthBranchParts t (assignGenesis t s))) = getSettings s"
proof -
  let ?s1 = "assignGenesis t s"
  let ?k = "maxChunkDurationInSeconds (getSettings s)"
  have k: "0 < ?k" by (rule validScript_maxChunk[OF ok])
  have gs: "getSettings ?s1 = getSettings s"
    by (rule getSettings_cong) (simp add: assignGenesis_def)
  have ph: "phases ?s1 = phases s" by (simp add: assignGenesis_def)
  have len: "scriptLength ?s1 = scriptLength s" by (simp add: scriptLength_def ph)
  have "0 < scriptLength s" using k long by simp
  then have valid: "\<forall>p \<in> set (phases ?s1). 0 \<le> phaseLength p"
    unfolding scriptLength_def ph by (rule scriptLength_from_pos)
  have kk: "0 \<le> ?k" "?k \<le> scriptLength ?s1" using k long len by simp_all
  have "scriptLength (fst (splitScriptByLength ?s1 ?k)) = ?k"
    by (rule splitScriptByLength_totals(1)[OF valid kk])
  then show "scriptLength (fst (lengthBranchParts t ?s1)) = ?k"
    by (simp add: lengthBranchParts_def Let_def gs assignStart_def scriptLength_def)
  show "getSettings (fst (lengthBranchParts t ?s1)) = getSettings s"
    by (rule getSettings_cong)
       (simp add: lengthBranchParts_def Let_def assignStart_def splitScriptByLength_def
          assignGenesis_def)
qed

text \<open>
  \<open>run\<close>. \<open>clock k\<close> is the value \<open>Date.now()\<close> returns where the call of \<open>run\<close> at nesting depth
  \<open>k\<close> resamples \<open>timeNow\<close> (line 597). In the length branch a chunk that is still too wide is
  run by a nested call whose callback is \<open>complete\<close>; an exception in the nested call leaves
  the outer call as well, before the remainder is dispatched. The result \<open>None\<close> is a call
  that does not return.
\<close>

function run :: "(nat \<Rightarrow> rat) \<Rightarrow> nat \<Rightarrow> script \<Rightarrow> effect list option" where
  "run clock n s0 =
     (case snd (validScript s0) of
        Some message \<Rightarrow> Some [Rejected message]
      | None \<Rightarrow>
          (let timeNow = clock n;
               settings = getSettings s0;
               scriptDuration = scriptLength s0;
               scriptWidth' = scriptWidth s0;
               s = assignGenesis timeNow s0
           in if scriptDuration > maxChunkDurationInSeconds settings then
                (let parts = lengthBranchParts timeNow s
                 in if scriptWidth (fst parts) > maxChunkRequestsPerSecond settings then
                      Option.bind (run clock (Suc n) (fst parts))
                        (\<lambda>nested. if threw nested then Some (Counter 2 # nested)
                                   else Some (Counter 2 # nested @ [InvokeSelf (snd parts)]))
                    else Some [Counter 2, InvokeSelf (fst parts), InvokeSelf (snd parts)])
              else if scriptWidth' > maxChunkRequestsPerSecond settings then
                Option.bind
                  (widthLoop (assignStart (timeNow + timeBufferInMilliseconds settings) s)
                     (maxChunkRequestsPerSecond settings))
                  (\<lambda>sent. Some (Counter \<lceil>scriptWidth' / maxChunkRequestsPerSecond settings\<rceil> # sent))
              else Some [RunLoad (assignStart timeNow s)]))"
  by pat_completeness auto
termination
proof (relation "measure (\<lambda>(clock, n, s).
    if snd (validScript s) = None \<and> maxChunkDurationInSeconds (getSettings s) < scriptLength s
    then 1 else 0)")
  show "wf (measure (\<lambda>(clock, n, s).
    if snd (validScript s) = None \<and> maxChunkDurationInSeconds (getSettings s) < scriptLength s
    then 1 else (0::nat)))" by simp
next
  fix clock :: "nat \<Rightarrow> rat" and n :: nat and s0 :: script
    and timeNow settings scriptDuration scriptWidth' s parts
  assume a: "snd (validScript s0) = None" "timeNow = clock n" "settings = getSettings s0"
    "scriptDuration = scriptLength s0" "s = assignGenesis timeNow s0"
    "maxChunkDurationInSeconds settings < scriptDuration"
    "parts = lengthBranchParts timeNow s"
  have ok: "snd (validScript s0) = None" by (rule a(1))
  have long: "maxChunkDurationInSeconds (getSettings s0) < scriptLength s0"
    using a by simp
  from lengthBranch_chunk_length[OF ok long, of "clock n"] a
  show "((clock, Suc n, fst parts), clock, n, s0) \<in> measure (\<lambda>(clock, n, s).
    if snd (validScript s) = None \<and> maxChunkDurationInSeconds (getSettings s) < scriptLength s
    then 1 else 0)"
    by simp
qed







lemma assign_fields [simp]:
  "s_genesis (assignStart t s) = s_genesis s"
  "s_start (assignGenesis t s) = s_start s"
  "s_split (assignStart t s) = s_split s"
  "s_split (assignGenesis t s) = s_split s"
  "phases (assignStart t s) = phases s"
  "phases (assignGenesis t s) = phases s"
  by (simp_all add: assignStart_def assignGenesis_def)


lemma run_short:
  assumes ok: "snd (validScript s) = None"
    and short: "\<not> maxChunkDurationInSeconds (getSettings s) < scriptLength s"
  shows "run clock n s =
           (if scriptWidth s > maxChunkRequestsPerSecond (getSettings s) then
              Option.bind
                (widthLoop
                   (assignStart (clock n + timeBufferInMilliseconds (getSettings s))
                      (assignGenesis (clock n) s))
                   (maxChunkRequestsPerSecond (getSettings s)))
                (\<lambda>sent. Some (Counter \<lceil>scriptWidth s / maxChunkRequestsPerSecond (getSettings s)\<rceil>
                                 # sent))
            else Some [RunLoad (assignStart (clock n) (assignGenesis (clock n) s))])"
  using ok short by (simp add: run.simps[of clock n s] Let_def)





section \<open>A first phase without a length\<close>

text \<open>A phase \<open>{arrivalRate: a}\<close>: neither \<open>duration\<close> nor \<open>pause\<close>.\<close>

definition arrivalRateOnly :: "rat \<Rightarrow> phase" where
  "arrivalRateOnly a =
     \<lparr> arrivalCount = None, arrivalRate = Some a, rampTo = None, duration = None,
       pause = None, extras = [] \<rparr>"

lemmas default_defs = getSettings_def MAX_SCRIPT_DURATION_IN_SECONDS_def
  MAX_SCRIPT_REQUESTS_PER_SECOND_def MAX_CHUNK_DURATION_IN_SECONDS_def
  MAX_CHUNK_REQUESTS_PER_SECOND_def TIME_BUFFER_IN_MILLISECONDS_def

lemmas validScript_defs = validScript_def isInteger_def observed_def scriptLength_def
  scriptWidth_def phaseLength_def phaseWidth_def Let_def

lemma validScript_later_phase:
  assumes "s_split s = None" and "phases s = pre @ p # post" and "pre \<noteq> []"
    and "\<forall>q \<in> set pre. 0 \<le> phaseLength q" and "phaseLength p < 0"
  shows "validScript s = (False, Some (InvalidDuration (Some p)))"
proof -
  have len: "scriptLength_from i ret (pre @ p # post) = - of_nat (i + length pre)" for i ret
    using assms(4)
  proof (induction pre arbitrary: i ret)
    case Nil
    with assms(5) show ?case by simp
  next
    case (Cons q pre)
    then show ?case by simp
  qed
  have l: "scriptLength s = - of_nat (length pre)"
    using len[of 0 0] by (simp add: scriptLength_def assms(2))
  have pos: "0 < length pre" using assms(3) by simp
  have neg: "scriptLength s < 0" using pos by (simp add: l)
  have obs: "observed (phases s) (scriptLength s * - 1) = Some p"
    by (simp add: observed_def isInteger_def l assms(2))
  show ?thesis
    using neg obs assms(1,2)
    by (simp add: validScript_def default_defs isInteger_def Let_def)
qed

lemma validScript_first_phase_unreported:
  assumes "phases s = p # post" and "phaseLength p < 0"
  shows "scriptLength s = 0" and "snd (validScript s) \<noteq> Some (InvalidDuration x)"
proof -
  show z: "scriptLength s = 0" using assms by (simp add: scriptLength_def)
  show "snd (validScript s) \<noteq> Some (InvalidDuration x)"
    by (simp add: validScript_def Let_def z)
qed

text \<open>
  C6. The claim asks that a phase with neither \<open>duration\<close> nor \<open>pause\<close> be rejected at every
  index. \<open>scriptLength\<close> reports the first such phase as \<open>-1 * i\<close>, which is \<open>0\<close> at index \<open>0\<close>, and
  \<open>validScript\<close> tests \<open>scriptLength < 0\<close>: the script whose only phase is \<open>{arrivalRate: 5}\<close> is
  accepted and no callback is made. (From index \<open>1\<close> on the phase is reported:
  \<open>validScript_later_phase\<close>.)
\<close>

theorem validScript_accepts_first_phase_without_length:
  "phaseLength (arrivalRateOnly 5) = - 1
   \<and> scriptLength (plainScript [arrivalRateOnly 5]) = 0
   \<and> validScript (plainScript [arrivalRateOnly 5]) = (True, None)"
  by (simp add: validScript_defs default_defs example_defs arrivalRateOnly_def)

section \<open>Completion accounting of the width branch\<close>

text \<open>
  What the width loop keeps true of every phase when the ceiling \<open>c\<close> and the rates and
  durations of the script are whole numbers: rates stay whole and non-negative, a count phase
  keeps its whole duration of at least one second, and a ramp either lasts at least one
  second or, when the rounded crossing time left it no time at all, fits under the ceiling
  (so \<open>intersect\<close> is never asked for the crossing of a ramp without duration).
\<close>

definition wholePhase :: "rat \<Rightarrow> phase \<Rightarrow> bool" where
  "wholePhase c p =
     (case (arrivalCount p, arrivalRate p, rampTo p, duration p, pause p) of
        (None, Some a, None, Some d, None) \<Rightarrow> isInteger a \<and> 0 \<le> a
      | (None, Some a, Some r, Some d, None) \<Rightarrow>
          isInteger a \<and> isInteger r \<and> isInteger d \<and> 0 \<le> a \<and> 0 \<le> r
          \<and> (1 \<le> d \<or> (d = 0 \<and> max a r \<le> c))
      | (Some n, None, None, Some d, None) \<Rightarrow> isInteger d \<and> 0 \<le> n \<and> 1 \<le> d
      | (None, None, None, None, Some ps) \<Rightarrow> True
      | _ \<Rightarrow> False)"

lemma wholePhase_cases:
  assumes "wholePhase c p"
  obtains
    (ConstantRate) a d where "arrivalCount p = None" "arrivalRate p = Some a" "rampTo p = None"
      "duration p = Some d" "pause p = None" "isInteger a" "0 \<le> a"
  | (Ramp) a r d where "arrivalCount p = None" "arrivalRate p = Some a" "rampTo p = Some r"
      "duration p = Some d" "pause p = None" "isInteger a" "isInteger r" "isInteger d"
      "0 \<le> a" "0 \<le> r" "1 \<le> d \<or> (d = 0 \<and> max a r \<le> c)"
  | (Count) n d where "arrivalCount p = Some n" "arrivalRate p = None" "rampTo p = None"
      "duration p = Some d" "pause p = None" "isInteger d" "0 \<le> n" "1 \<le> d"
  | (Pause) ps where "arrivalCount p = None" "arrivalRate p = None" "rampTo p = None"
      "duration p = None" "pause p = Some ps"
  using assms unfolding wholePhase_def
  by (auto split: option.splits)

lemma isInteger_ex: "isInteger x \<longleftrightarrow> (\<exists>z. x = of_int z)"
  unfolding isInteger_def by (metis floor_of_int)

lemma isInteger_simps [simp]:
  "isInteger (of_int z)" "isInteger 0" "isInteger 1"
  by (simp_all add: isInteger_def)

lemma isInteger_diff: "isInteger x \<Longrightarrow> isInteger y \<Longrightarrow> isInteger (x - y)"
  unfolding isInteger_ex by (metis of_int_diff)

lemma isInteger_mult: "isInteger x \<Longrightarrow> isInteger y \<Longrightarrow> isInteger (x * y)"
  unfolding isInteger_ex by (metis of_int_mult)

lemma whole_gap:
  assumes "isInteger x" "isInteger y" "x < y"
  shows "x + 1 \<le> y"
proof -
  from assms(1,2) obtain i j where x: "x = of_int i" and y: "y = of_int j"
    unfolding isInteger_ex by blast
  from assms(3) have "i < j" by (simp add: x y)
  then have "i + 1 \<le> j" by simp
  then have "(of_int (i + 1) :: rat) \<le> of_int j" by (simp only: of_int_le_iff)
  then show ?thesis by (simp add: x y)
qed

text \<open>
  One width split of a phase: \<open>splitPhaseByWidth\<close> returns, the remainder's sub-phases keep
  \<open>wholePhase\<close>, and their widths are at most the width of the phase less \<open>c\<close> (or \<open>0\<close>), a
  bound that one of them attains when the phase is wider than \<open>c\<close>.
\<close>

definition stepsDown :: "phase \<Rightarrow> rat \<Rightarrow> bool" where
  "stepsDown p c =
     (splitPhaseByWidth p c = Inr (dropFlatRamp p, chunkOf p c, remainderOf p c)
      \<and> (\<forall>q \<in> set (remainderOf p c).
            wholePhase c q \<and> 0 \<le> phaseWidth q \<and> phaseWidth q \<le> max 0 (phaseWidth p - c))
      \<and> (c < phaseWidth p \<longrightarrow> (\<exists>q \<in> set (remainderOf p c). phaseWidth q = phaseWidth p - c)))"

lemmas step_defs = stepsDown_def chunkOf_def remainderOf_def splitPhaseByWidth_defs
  phaseWidth_def wholePhase_def

lemma stepsDown_constant:
  assumes "arrivalCount p = None" "arrivalRate p = Some a" "rampTo p = None"
    "duration p = Some d" "pause p = None" "isInteger a" "0 \<le> a" "isInteger c"
  shows "stepsDown p c"
  using assms by (auto simp: step_defs isInteger_diff)

lemma stepsDown_pause:
  assumes "arrivalCount p = None" "arrivalRate p = None" "rampTo p = None"
      "duration p = None" "pause p = Some ps" "1 \<le> c"
  shows "stepsDown p c"
  using assms by (auto simp: step_defs)

lemma stepsDown_count:
  assumes f: "arrivalCount p = Some n" "arrivalRate p = None" "rampTo p = None"
      "duration p = Some d" "pause p = None" "isInteger d" "0 \<le> n" "1 \<le> d"
    and c: "isInteger c"
  shows "stepsDown p c"
proof -
  have d: "0 < d" using f(8) by simp
  have fl: "of_int \<lfloor>c * d\<rfloor> = c * d"
    using isInteger_mult[OF c f(6)] by (simp add: isInteger_def)
  have w: "(n - c * d) / d = n / d - c" using d by (simp add: field_simps)
  have ge: "c \<le> n / d \<Longrightarrow> c * d \<le> n" using d by (simp add: field_simps)
  show ?thesis
    using f c d by (auto simp: step_defs fl w ge)
qed

lemma round_within:
  fixes y d :: rat
  assumes "0 \<le> y" "y \<le> d" "isInteger d"
  shows "0 \<le> (of_int (round y) :: rat)" and "(of_int (round y) :: rat) \<le> d"
proof -
  from assms(3) obtain z where d: "d = of_int z" unfolding isInteger_ex by blast
  have "round (0::rat) \<le> round y" by (rule round_mono[OF assms(1)])
  then show "0 \<le> (of_int (round y) :: rat)" by simp
  have "round y \<le> round d" by (rule round_mono[OF assms(2)])
  then have "round y \<le> z" by (simp add: d)
  then show "(of_int (round y) :: rat) \<le> d" by (simp add: d)
qed

lemma round_up_end:
  fixes a c r d :: rat
  assumes up: "a < c" "c < r" and a: "0 \<le> a" and d: "1 \<le> d" "isInteger d"
  defines "x \<equiv> of_int (round (d * (c - a) / (r - a)))"
  shows "0 \<le> x" and "x \<le> d" and "1 \<le> d - x \<or> (d - x = 0 \<and> r - c \<le> c)"
proof -
  let ?y = "d * (c - a) / (r - a)"
  have d0: "0 < d" using d(1) by simp
  have y: "0 < ?y" "?y < d" by (rule crossing_time_up[OF up d0])+
  show x0: "0 \<le> x" and xd: "x \<le> d"
    unfolding x_def using round_within[of ?y d] y d(2) by simp_all
  have ix: "isInteger x" by (simp add: x_def)
  show "1 \<le> d - x \<or> (d - x = 0 \<and> r - c \<le> c)"
  proof (cases "x = d")
    case False
    with xd have "x < d" by simp
    from whole_gap[OF ix d(2) this] show ?thesis by simp
  next
    case True
    have "x \<le> ?y + 1 / 2" unfolding x_def by (rule of_int_round_le)
    with True have le: "d - ?y \<le> 1 / 2" by simp
    have ra: "0 < r - a" using up by simp
    have "d - ?y = d * (r - c) / (r - a)" using ra by (simp add: field_simps)
    with le have "d * (r - c) / (r - a) \<le> 1 / 2" by simp
    then have "d * (r - c) * 2 \<le> r - a" using ra by (simp add: field_simps)
    moreover have "1 * (r - c) \<le> d * (r - c)" using d(1) up by (intro mult_right_mono) simp_all
    ultimately have "2 * (r - c) \<le> r - a" by simp
    with a True show ?thesis by simp
  qed
qed

lemma round_down_start:
  fixes a c r d :: rat
  assumes down: "r < c" "c < a" and r: "0 \<le> r" and d: "1 \<le> d" "isInteger d"
  defines "x \<equiv> of_int (round (d * (c - a) / (r - a)))"
  shows "0 \<le> x" and "x \<le> d" and "1 \<le> x \<or> (x = 0 \<and> a - c \<le> c)"
proof -
  let ?y = "d * (c - a) / (r - a)"
  have d0: "0 < d" using d(1) by simp
  have y: "0 < ?y" "?y < d" by (rule crossing_time_down[OF down d0])+
  show x0: "0 \<le> x" and xd: "x \<le> d"
    unfolding x_def using round_within[of ?y d] y d(2) by simp_all
  have ix: "isInteger x" by (simp add: x_def)
  show "1 \<le> x \<or> (x = 0 \<and> a - c \<le> c)"
  proof (cases "x = 0")
    case False
    with x0 have "0 < x" by simp
    from whole_gap[OF _ ix this] show ?thesis by simp
  next
    case True
    have "?y - 1 / 2 < x" unfolding x_def by (rule of_int_round_gt)
    with True have lt: "?y < 1 / 2" by simp
    have ar: "0 < a - r" using down by simp
    have "?y = d * (a - c) / (a - r)" using ar by (simp add: field_simps)
    with lt have "d * (a - c) / (a - r) < 1 / 2" by simp
    then have "d * (a - c) * 2 < a - r" using ar by (simp add: field_simps)
    moreover have "1 * (a - c) \<le> d * (a - c)" using d(1) down by (intro mult_right_mono) simp_all
    ultimately have "2 * (a - c) < a - r" by simp
    with r True show ?thesis by simp
  qed
qed

lemmas step_crossing_defs = stepsDown_def chunkOf_def remainderOf_def splitPhaseByWidth_def
  dropFlatRamp_def addRamp_def addPause_def addArrivalRate_def copyOverwritePush_def
  minus_opt_def Let_def phaseWidth_def wholePhase_def

lemma stepsDown_ramp:
  assumes f: "arrivalCount p = None" "arrivalRate p = Some a" "rampTo p = Some r"
      "duration p = Some d" "pause p = None" "isInteger a" "isInteger r" "isInteger d"
      "0 \<le> a" "0 \<le> r" "1 \<le> d \<or> (d = 0 \<and> max a r \<le> c)"
    and c: "isInteger c" "1 \<le> c"
  shows "stepsDown p c"
proof -
  consider (flat) "r = a" | (fits) "r \<noteq> a" "max a r \<le> c"
    | (exceeds) "r \<noteq> a" "\<not> max a r \<le> c" "c \<le> min a r"
    | (up) "a < c" "c < r" | (down) "r < c" "c < a"
    by atomize_elim (auto simp: max_def min_def)
  then show ?thesis
  proof cases
    case flat
    with f c show ?thesis by (auto simp: step_defs isInteger_diff)
  next
    case fits
    with f c show ?thesis by (auto simp: step_defs)
  next
    case exceeds
    have d: "1 \<le> d" using f(11) exceeds(2) by auto
    have ia: "isInteger (a - c)" and ir: "isInteger (r - c)"
      using f(6,7) c(1) by (simp_all add: isInteger_diff)
    have one: "a = c \<Longrightarrow> 1 \<le> r - c"
    proof -
      assume "a = c"
      with exceeds have "c < r" by (auto simp: max_def min_def split: if_splits)
      from whole_gap[OF c(1) f(7) this] show ?thesis by simp
    qed
    have ca: "c \<le> a" "c \<le> r" using exceeds(3) by simp_all
    show ?thesis
    proof (cases "a = c")
      case True
      with f c exceeds d ir one ca show ?thesis
        by (auto simp: step_defs max_def)
    next
      case False
      with ca have "0 < a - c" by simp
      with f c exceeds d ia ir ca show ?thesis
        by (auto simp: step_defs max_def)
    qed
  next
    case up
    have d: "1 \<le> d" using f(11) up by auto
    define x :: rat where "x = of_int (round (d * (c - a) / (r - a)))"
    note rx = round_up_end[OF up f(9) d f(8), folded x_def]
    have ne: "r \<noteq> a" "d \<noteq> 0" using up d by auto
    obtain y where isect: "intersection p c = Inr (Some (x, y))"
      using intersection_ramp[OF f(2,3,4) ne, of c] by (auto simp: x_def)
    have ix: "isInteger (d - x)" using f(8) by (simp add: isInteger_diff x_def)
    have ir: "isInteger (r - c)" using f(7) c(1) by (simp add: isInteger_diff)
    have one: "1 \<le> r - c" using whole_gap[OF c(1) f(7) up(2)] by simp
    from f c up ne isect rx ix ir one show ?thesis
      by (auto simp: step_crossing_defs max_def)
  next
    case down
    have d: "1 \<le> d" using f(11) down by auto
    define x :: rat where "x = of_int (round (d * (c - a) / (r - a)))"
    note rx = round_down_start[OF down f(10) d f(8), folded x_def]
    have ne: "r \<noteq> a" "d \<noteq> 0" using down d by auto
    obtain y where isect: "intersection p c = Inr (Some (x, y))"
      using intersection_ramp[OF f(2,3,4) ne, of c] by (auto simp: x_def)
    have ix: "isInteger x" by (simp add: x_def)
    have ia: "isInteger (a - c)" using f(6) c(1) by (simp add: isInteger_diff)
    have one: "1 \<le> a - c" using whole_gap[OF c(1) f(6) down(2)] by simp
    from f c down ne isect rx ix ia one show ?thesis
      by (auto simp: step_crossing_defs max_def)
  qed
qed

lemma wholePhase_stepsDown:
  assumes "wholePhase c p" "isInteger c" "1 \<le> c"
  shows "stepsDown p c"
  using assms(1)
proof (cases rule: wholePhase_cases)
  case (ConstantRate a d)
  from stepsDown_constant[OF this assms(2)] show ?thesis .
next
  case (Ramp a r d)
  from stepsDown_ramp[OF this assms(2,3)] show ?thesis .
next
  case (Count n d)
  from stepsDown_count[OF this assms(2)] show ?thesis .
next
  case (Pause ps)
  from stepsDown_pause[OF this assms(3)] show ?thesis .
qed

lemma wholePhase_width_nonneg: "wholePhase c p \<Longrightarrow> 0 \<le> phaseWidth p"
  by (cases rule: wholePhase_cases) (auto simp: phaseWidth_def)

lemma scriptWidth_from_attained:
  "\<forall>q \<in> set ps. 0 \<le> phaseWidth q \<Longrightarrow>
   scriptWidth_from i ret ps = ret \<or> (\<exists>q \<in> set ps. scriptWidth_from i ret ps = phaseWidth q)"
proof (induction ps arbitrary: i ret)
  case Nil
  then show ?case by simp
next
  case (Cons p ps)
  have rest: "\<forall>q \<in> set ps. 0 \<le> phaseWidth q" and p0: "\<not> phaseWidth p < 0"
    using Cons.prems by (simp_all add: not_less)
  from Cons.IH[OF rest, of "Suc i" "max ret (phaseWidth p)"] p0
  show ?case by (auto simp: max_def split: if_splits)
qed

lemma splitByWidthLoop_returns:
  "\<forall>p \<in> set ps. splitPhaseByWidth p c = Inr (dropFlatRamp p, chunkOf p c, remainderOf p c) \<Longrightarrow>
   splitByWidthLoop c seen ch rm ps
     = Inr (seen @ map dropFlatRamp ps,
            ch @ concat (map (\<lambda>p. chunkOf p c) ps),
            rm @ concat (map (\<lambda>p. remainderOf p c) ps))"
  by (induction ps arbitrary: seen ch rm) simp_all

lemma max_zero_eq:
  fixes X D :: rat
  assumes "X \<le> max 0 D" "0 \<le> X" "0 < D \<Longrightarrow> D \<le> X"
  shows "X = max 0 D"
proof (cases "0 < D")
  case True
  then have m: "max 0 D = D" by simp
  from assms(1) have "X \<le> D" by (simp only: m)
  moreover from assms(3)[OF True] have "D \<le> X" .
  ultimately show ?thesis by (simp only: m)
next
  case False
  then have m: "max 0 D = 0" by simp
  from assms(1) have "X \<le> 0" by (simp only: m)
  with assms(2) show ?thesis by (simp only: m)
qed

lemma whole_script_step:
  assumes whole: "\<forall>p \<in> set (phases s). wholePhase c p" and c: "isInteger c" "1 \<le> c"
  shows "\<exists>s' chunk remainder.
           splitScriptByWidth s c = Inr (s', chunk, remainder)
         \<and> (\<forall>q \<in> set (phases remainder). wholePhase c q)
         \<and> scriptWidth remainder = max 0 (scriptWidth s - c)"
proof -
  let ?rem = "concat (map (\<lambda>p. remainderOf p c) (phases s))"
  let ?W = "scriptWidth s"
  have step: "\<forall>p \<in> set (phases s). stepsDown p c"
    using whole c wholePhase_stepsDown by blast
  have ret: "\<forall>p \<in> set (phases s).
               splitPhaseByWidth p c = Inr (dropFlatRamp p, chunkOf p c, remainderOf p c)"
    using step by (simp add: stepsDown_def)
  have split: "splitScriptByWidth s c
                 = Inr (s\<lparr>phases := map dropFlatRamp (phases s)\<rparr>,
                        s\<lparr>phases := concat (map (\<lambda>p. chunkOf p c) (phases s))\<rparr>,
                        s\<lparr>phases := ?rem\<rparr>)"
    by (simp add: splitScriptByWidth_def splitByWidthLoop_returns[OF ret])
  have nn: "\<forall>p \<in> set (phases s). 0 \<le> phaseWidth p"
    using whole wholePhase_width_nonneg by blast
  have below: "\<forall>p \<in> set (phases s). phaseWidth p \<le> ?W"
    using scriptWidth_from_ge[OF nn, of 0 0] by (simp add: scriptWidth_def)
  have W0: "0 \<le> ?W"
    using scriptWidth_from_ge[OF nn, of 0 0] by (simp add: scriptWidth_def)
  have rem: "\<forall>q \<in> set ?rem. wholePhase c q \<and> 0 \<le> phaseWidth q
               \<and> phaseWidth q \<le> max 0 (?W - c)"
  proof
    fix q assume "q \<in> set ?rem"
    then obtain p where p: "p \<in> set (phases s)" and q: "q \<in> set (remainderOf p c)" by auto
    from step p q have "wholePhase c q \<and> 0 \<le> phaseWidth q
        \<and> phaseWidth q \<le> max 0 (phaseWidth p - c)"
      by (simp add: stepsDown_def)
    moreover have "max 0 (phaseWidth p - c) \<le> max 0 (?W - c)"
      using below p by (auto simp: max_def)
    ultimately show "wholePhase c q \<and> 0 \<le> phaseWidth q \<and> phaseWidth q \<le> max 0 (?W - c)"
      by (meson order_trans)
  qed
  have rnn: "\<forall>q \<in> set ?rem. 0 \<le> phaseWidth q" using rem by blast
  have upper: "scriptWidth_from 0 0 ?rem \<le> max 0 (?W - c)"
    using rem by (intro scriptWidth_from_le) auto
  have lower0: "0 \<le> scriptWidth_from 0 0 ?rem"
    using scriptWidth_from_ge[OF rnn, of 0 0] by simp
  have lower: "?W - c \<le> scriptWidth_from 0 0 ?rem" if over: "c < ?W"
  proof -
    from scriptWidth_from_attained[OF nn, of 0 0] over c(2)
    obtain p where p: "p \<in> set (phases s)" and w: "phaseWidth p = ?W"
      by (auto simp: scriptWidth_def)
    from step p over w obtain q where q: "q \<in> set (remainderOf p c)"
      and qw: "phaseWidth q = ?W - c"
      by (auto simp: stepsDown_def)
    from p q have "q \<in> set ?rem" by auto
    with scriptWidth_from_ge[OF rnn, of 0 0]
    have "phaseWidth q \<le> scriptWidth_from 0 0 ?rem" by blast
    then show ?thesis by (simp only: qw)
  qed
  have "scriptWidth_from 0 0 ?rem = max 0 (?W - c)"
  proof (rule max_zero_eq[OF upper lower0])
    assume "0 < ?W - c"
    then have "c < ?W" by simp
    then show "?W - c \<le> scriptWidth_from 0 0 ?rem" by (rule lower)
  qed
  then have w: "scriptWidth (s\<lparr>phases := ?rem\<rparr>) = max 0 (?W - c)"
    by (simp add: scriptWidth_def)
  from rem have r: "\<forall>q \<in> set (phases (s\<lparr>phases := ?rem\<rparr>)). wholePhase c q" by simp
  from split r w show ?thesis by blast
qed

lemma ceiling_unit_interval:
  fixes x :: rat
  assumes "0 < x" "x \<le> 1"
  shows "\<lceil>x\<rceil> = 1"
  using assms by (intro ceiling_unique) simp_all

lemma widthLoop_whole:
  assumes c: "isInteger c" "1 \<le> c"
  shows "(\<forall>p \<in> set (phases s). wholePhase c p) \<Longrightarrow> 0 < scriptWidth s \<Longrightarrow>
         nat \<lceil>scriptWidth s / c\<rceil> = n \<Longrightarrow>
         \<exists>sent. widthLoop s c = Some sent \<and> length sent = n
                \<and> (\<forall>e \<in> set sent. \<exists>chunk. e = InvokeSelf chunk)"
proof (induction n arbitrary: s)
  case 0
  have "0 < scriptWidth s / c" using 0(2) c(2) by simp
  then have "0 < \<lceil>scriptWidth s / c\<rceil>" by simp
  with 0(3) show ?case by simp
next
  case (Suc n)
  from whole_script_step[OF Suc.prems(1) c] obtain s' chunk remainder where
    split: "splitScriptByWidth s c = Inr (s', chunk, remainder)"
    and whole: "\<forall>q \<in> set (phases remainder). wholePhase c q"
    and w: "scriptWidth remainder = max 0 (scriptWidth s - c)" by blast
  have c0: "0 < c" using c(2) by simp
  show ?case
  proof (cases "scriptWidth s \<le> c")
    case True
    then have "\<not> 0 < scriptWidth remainder" by (simp add: w)
    then have loop: "widthLoop s c = Some [InvokeSelf chunk]"
      by (subst widthLoop.simps) (simp add: split)
    have "scriptWidth s / c \<le> 1" using True c0 by simp
    moreover have "0 < scriptWidth s / c" using Suc.prems(2) c0 by simp
    ultimately have "\<lceil>scriptWidth s / c\<rceil> = 1" by (rule ceiling_unit_interval[rotated])
    with Suc.prems(3) have "Suc n = 1" by simp
    with loop show ?thesis by simp
  next
    case False
    then have pos: "0 < scriptWidth remainder" and eq: "scriptWidth remainder = scriptWidth s - c"
      by (simp_all add: w)
    have "scriptWidth remainder / c = scriptWidth s / c - 1"
      using c0 by (simp add: eq field_simps)
    then have "\<lceil>scriptWidth remainder / c\<rceil> = \<lceil>scriptWidth s / c\<rceil> - 1" by simp
    with Suc.prems(3) have n: "nat \<lceil>scriptWidth remainder / c\<rceil> = n" by simp
    from Suc.IH[OF whole pos n] obtain rest where
      rest: "widthLoop remainder c = Some rest" "length rest = n"
        "\<forall>e \<in> set rest. \<exists>chunk. e = InvokeSelf chunk" by blast
    have "widthLoop s c = Some (InvokeSelf chunk # rest)"
      by (subst widthLoop.simps) (simp add: split pos rest(1))
    with rest show ?thesis by simp
  qed
qed

text \<open>The rates and the duration of a phase are whole numbers.\<close>

definition wholeNumbers :: "phase \<Rightarrow> bool" where
  "wholeNumbers p =
     ((case arrivalRate p of Some a \<Rightarrow> isInteger a | None \<Rightarrow> True)
      \<and> (case rampTo p of Some r \<Rightarrow> isInteger r | None \<Rightarrow> True)
      \<and> (case duration p of Some d \<Rightarrow> isInteger d | None \<Rightarrow> True))"

lemma valid_whole:
  assumes "validPhase p" "wholeNumbers p"
  shows "wholePhase c p"
  using assms(1)
proof (cases rule: validPhase_cases)
  case (ConstantRate a d)
  with assms(2) show ?thesis by (simp add: wholePhase_def wholeNumbers_def)
next
  case (Ramp a r d)
  with assms(2) have "isInteger d" by (simp add: wholeNumbers_def)
  from whole_gap[OF _ this Ramp(8)] have "1 \<le> d" by simp
  with Ramp assms(2) show ?thesis by (simp add: wholePhase_def wholeNumbers_def)
next
  case (Count n d)
  with assms(2) have "isInteger d" by (simp add: wholeNumbers_def)
  from whole_gap[OF _ this Count(7)] have "1 \<le> d" by simp
  with Count assms(2) show ?thesis by (simp add: wholePhase_def wholeNumbers_def)
next
  case (Pause ps)
  then show ?thesis by (simp add: wholePhase_def)
qed

lemma run_width_branch_whole_numbers:
  assumes ok: "snd (validScript s) = None"
    and short: "\<not> maxChunkDurationInSeconds (getSettings s) < scriptLength s"
    and wide: "maxChunkRequestsPerSecond (getSettings s) < scriptWidth s"
    and c: "isInteger (maxChunkRequestsPerSecond (getSettings s))"
      "1 \<le> maxChunkRequestsPerSecond (getSettings s)"
    and whole: "\<forall>p \<in> set (phases s). validPhase p \<and> wholeNumbers p"
  shows "\<exists>sent. run clock n s
                  = Some (Counter \<lceil>scriptWidth s / maxChunkRequestsPerSecond (getSettings s)\<rceil> # sent)
              \<and> int (length sent) = \<lceil>scriptWidth s / maxChunkRequestsPerSecond (getSettings s)\<rceil>
              \<and> (\<forall>e \<in> set sent. \<exists>chunk. e = InvokeSelf chunk)"
proof -
  let ?c = "maxChunkRequestsPerSecond (getSettings s)"
  let ?s2 = "assignStart (clock n + timeBufferInMilliseconds (getSettings s))
               (assignGenesis (clock n) s)"
  have ph: "phases ?s2 = phases s" by simp
  have w2: "scriptWidth ?s2 = scriptWidth s" by (simp add: scriptWidth_def)
  have wp: "\<forall>p \<in> set (phases ?s2). wholePhase ?c p"
    using whole valid_whole by (simp add: ph)
  have pos: "0 < scriptWidth ?s2" using wide c(2) by (simp add: w2)
  have "0 < scriptWidth s / ?c" using wide c(2) by simp
  then have cpos: "0 \<le> \<lceil>scriptWidth s / ?c\<rceil>" by simp
  from widthLoop_whole[OF c wp pos refl] obtain sent where
    sent: "widthLoop ?s2 ?c = Some sent"
      "length sent = nat \<lceil>scriptWidth ?s2 / ?c\<rceil>"
      "\<forall>e \<in> set sent. \<exists>chunk. e = InvokeSelf chunk" by blast
  have "run clock n s = Some (Counter \<lceil>scriptWidth s / ?c\<rceil> # sent)"
    unfolding run_short[OF ok short] using wide by (simp add: sent(1))
  moreover have "int (length sent) = \<lceil>scriptWidth s / ?c\<rceil>"
    using sent(2) cpos by (simp add: w2)
  ultimately show ?thesis using sent(3) by blast
qed

lemma floor_one_quotient:
  "\<lfloor>(1 :: rat) / numeral v\<rfloor> = 1 div numeral v"
  using floor_divide_of_int_eq[of 1 "numeral v", where ?'a = rat] by simp

lemma widthLoop_never_returns:
  "widthLoop (plainScript [countPhase 30 (1/50)]) 25 = None"
proof (cases "widthLoop (plainScript [countPhase 30 (1/50)]) 25")
  case None
  then show ?thesis .
next
  case (Some sent)
  let ?S = "plainScript [countPhase 30 (1/50)]"
  have split: "splitScriptByWidth ?S 25 = Inr (?S, plainScript [countPhase 0 (1/50)], ?S)"
    by (simp add: splitScriptByWidth_def splitPhaseByWidth_defs example_defs floor_one_quotient)
  have w: "0 < scriptWidth ?S" by (simp add: scriptWidth_def phaseWidth_def example_defs)
  have "widthLoop ?S 25
          = Option.bind (widthLoop ?S 25)
              (\<lambda>rest. Some (InvokeSelf (plainScript [countPhase 0 (1/50)]) # rest))"
    by (subst widthLoop.simps) (simp add: split w)
  with Some have "sent = InvokeSelf (plainScript [countPhase 0 (1/50)]) # sent" by simp
  then have "length sent = Suc (length sent)" by (metis length_Cons)
  then show ?thesis by simp
qed

text \<open>
  C4. The claim asks that the width loop dispatch \<open>ceil(W / c)\<close> chunks, the value given to
  \<open>toComplete\<close>. For the valid script with the single phase \<open>{arrivalCount: 50, duration: 0.5}\<close>
  and the default settings, \<open>W = 100\<close> and \<open>toComplete\<close> is \<open>4\<close>, but each chunk takes
  \<open>Math.floor(25 * 0.5) = 12\<close> arrivals and the loop dispatches five chunks. (With
  \<open>{arrivalCount: 30, duration: 0.02}\<close> a chunk takes \<open>0\<close> arrivals and the loop never ends:
  \<open>widthLoop_never_returns\<close>. Where the ceiling, the rates and the durations are whole
  numbers the loop does dispatch \<open>ceil(W / c)\<close> chunks: \<open>run_width_branch_whole_numbers\<close>.)
\<close>

theorem run_width_branch_dispatches_more_than_toComplete:
  "validPhase (countPhase 50 (1/2))
   \<and> validScript (plainScript [countPhase 50 (1/2)]) = (True, None)
   \<and> scriptLength (plainScript [countPhase 50 (1/2)]) = 1/2
   \<and> scriptWidth (plainScript [countPhase 50 (1/2)]) = 100
   \<and> run clock n (plainScript [countPhase 50 (1/2)])
       = Some [Counter 4,
           InvokeSelf ((plainScript [countPhase 12 (1/2)])
             \<lparr>s_genesis := Some (clock n), s_start := Some (clock n + 15000)\<rparr>),
           InvokeSelf ((plainScript [countPhase 12 (1/2)])
             \<lparr>s_genesis := Some (clock n), s_start := Some (clock n + 15000)\<rparr>),
           InvokeSelf ((plainScript [countPhase 12 (1/2)])
             \<lparr>s_genesis := Some (clock n), s_start := Some (clock n + 15000)\<rparr>),
           InvokeSelf ((plainScript [countPhase 12 (1/2)])
             \<lparr>s_genesis := Some (clock n), s_start := Some (clock n + 15000)\<rparr>),
           InvokeSelf ((plainScript [countPhase 2 (1/2)])
             \<lparr>s_genesis := Some (clock n), s_start := Some (clock n + 15000)\<rparr>)]"
proof -
  let ?S = "plainScript [countPhase 50 (1/2)]"
  have v: "validScript ?S = (True, None)"
    by (simp add: validScript_defs default_defs example_defs)
  have ok: "snd (validScript ?S) = None" by (simp add: v)
  have len: "scriptLength ?S = 1/2" by (simp add: scriptLength_def phaseLength_def example_defs)
  have wid: "scriptWidth ?S = 100" by (simp add: scriptWidth_def phaseWidth_def example_defs)
  have short: "\<not> maxChunkDurationInSeconds (getSettings ?S) < scriptLength ?S"
    by (simp add: len) (simp add: default_defs example_defs)
  have "run clock n ?S
       = Some [Counter 4,
           InvokeSelf ((plainScript [countPhase 12 (1/2)])
             \<lparr>s_genesis := Some (clock n), s_start := Some (clock n + 15000)\<rparr>),
           InvokeSelf ((plainScript [countPhase 12 (1/2)])
             \<lparr>s_genesis := Some (clock n), s_start := Some (clock n + 15000)\<rparr>),
           InvokeSelf ((plainScript [countPhase 12 (1/2)])
             \<lparr>s_genesis := Some (clock n), s_start := Some (clock n + 15000)\<rparr>),
           InvokeSelf ((plainScript [countPhase 12 (1/2)])
             \<lparr>s_genesis := Some (clock n), s_start := Some (clock n + 15000)\<rparr>),
           InvokeSelf ((plainScript [countPhase 2 (1/2)])
             \<lparr>s_genesis := Some (clock n), s_start := Some (clock n + 15000)\<rparr>)]"
    unfolding run_short[OF ok short] wid
    by (simp add: widthLoop.simps splitScriptByWidth_def splitPhaseByWidth_defs example_defs
        default_defs assignStart_def assignGenesis_def truthy_def
        scriptWidth_def phaseWidth_def floor_numeral_quotient)
  with v len wid show ?thesis by (simp add: validPhase_def example_defs)
qed

section \<open>Start times in the length branch\<close>



section \<open>The genesis time\<close>




end
